theory Spec2Isabelle
  imports Main
begin

section \<open>The path normalizer\<close>

text \<open>
  \<^verbatim>\<open>str.split(sep)\<close> with a one-character separator: the text between the separators,
  empty pieces kept, so the empty string splits into one empty piece.
\<close>

fun split :: "char \<Rightarrow> string \<Rightarrow> string list" where
  "split sep [] = [[]]"
| "split sep (c # cs) =
     (if c = sep then [] # split sep cs
      else (case split sep cs of
              [] \<Rightarrow> [[c]]
            | p # ps \<Rightarrow> (c # p) # ps))"

text \<open>\<^verbatim>\<open>sep.join(parts)\<close>.\<close>

fun join :: "string \<Rightarrow> string list \<Rightarrow> string" where
  "join sep [] = []"
| "join sep [p] = p"
| "join sep (p # q # ps) = p @ sep @ join sep (q # ps)"

text \<open>
  \<^verbatim>\<open>list.index(x)\<close>: the position of the first element equal to \<open>x\<close>; \<open>None\<close> stands
  for the \<^verbatim>\<open>ValueError\<close> that Python raises when there is none.
\<close>

fun index :: "'a list \<Rightarrow> 'a \<Rightarrow> nat option" where
  "index [] x = None"
| "index (y # ys) x =
     (if y = x then Some 0
      else (case index ys x of None \<Rightarrow> None | Some i \<Rightarrow> Some (Suc i)))"

text \<open>
  \<^verbatim>\<open>_get_relative_file_path\<close>. The slice \<^verbatim>\<open>parts[projects_index + 2:]\<close> is \<open>drop\<close>: a
  Python slice that starts beyond the end is empty. The \<^verbatim>\<open>except ValueError\<close> branch
  returns the path as it came.
\<close>

definition get_relative_file_path :: "string \<Rightarrow> string" where
  "get_relative_file_path file_path =
     (if file_path = [] \<or> file_path = ''Unknown'' then ''Unknown''
      else (let parts = split CHR ''/'' file_path in
            case index parts ''projects'' of
              Some projects_index \<Rightarrow> join ''/'' (drop (projects_index + 2) parts)
            | None \<Rightarrow> file_path))"

section \<open>The data model\<close>

text \<open>
  A child reference as the graph query collects it: the scalar fields of the child and the
  type of the connecting edge. It has no \<^verbatim>\<open>children\<close> key until the tree builder sets
  one, so the key is optional here.
\<close>

datatype ref = Ref
  (r_id: string) (r_name: string) (r_type: string) (r_file_path: string)
  (r_start_line: "int option") (r_end_line: "int option")
  (relationship: string) (r_children: "ref list option")

text \<open>A node record of the flat result: the scalar fields and the child references.\<close>

record node =
  n_id :: string
  n_name :: string
  n_type :: string
  n_file_path :: string
  n_start_line :: "int option"
  n_end_line :: "int option"
  n_children :: "ref list"

text \<open>The assignment \<^verbatim>\<open>child["children"] = value\<close> on a child reference.\<close>

fun set_children :: "ref \<Rightarrow> ref list \<Rightarrow> ref" where
  "set_children (Ref i n t f s e rel ch) cs = Ref i n t f s e rel (Some cs)"

text \<open>
  A node of the response: the scalar fields, the processed children, and the
  \<^verbatim>\<open>relationship\<close> key, which the root does not have.
\<close>

datatype tree_node = TreeNode
  (t_id: string) (t_name: string) (t_type: string) (t_file_path: string)
  (t_start_line: "int option") (t_end_line: "int option")
  (t_children: "tree_node list") (t_relationship: "string option")

datatype py_error = KeyError string

section \<open>The tree builder\<close>

text \<open>
  The state of one call of \<^verbatim>\<open>_build_tree\<close>: the dictionary \<^verbatim>\<open>node_map\<close>, which holds the
  record objects and so is the store that the builder mutates, and the set \<^verbatim>\<open>visited\<close>.
\<close>

record bstate =
  node_map :: "string \<rightharpoonup> node"
  visited :: "string set"

text \<open>
  \<^verbatim>\<open>build_node_tree\<close> and its \<^verbatim>\<open>for\<close> loop. The first argument bounds the depth of the
  recursion; \<open>None\<close> means that the bound was reached. \<open>Inl\<close> is a raised exception,
  \<open>Inr (None, st)\<close> the Python result \<^verbatim>\<open>None\<close>.

  The loop runs over the list object that was assigned to \<^verbatim>\<open>current_node["children"]\<close>:
  Python's list iterator keeps that list and a position \<open>i\<close>, and yields the element at
  \<open>i\<close> of the list as it is at that moment, until \<open>i\<close> reaches its length. The list is
  \<open>cs\<close>; every change of it is also written to the record in the store.
  \<^verbatim>\<open>list.remove(child)\<close> deletes the first element equal to \<open>child\<close>, which is
  \<open>remove1\<close>.
\<close>

function build_node_tree :: "nat \<Rightarrow> node \<Rightarrow> bstate \<Rightarrow> (py_error + node option \<times> bstate) option"
  and expand_children :: "nat \<Rightarrow> node \<Rightarrow> nat \<Rightarrow> ref list \<Rightarrow> bstate \<Rightarrow> (py_error + ref list \<times> bstate) option"
where
  "build_node_tree 0 current_node st = None"
| "build_node_tree (Suc fuel) current_node st =
     (if n_id current_node \<in> visited st then Some (Inr (None, st))
      else
        let st1 = st\<lparr>visited := insert (n_id current_node) (visited st)\<rparr>;
            cs = filter (\<lambda>child. node_map st1 (r_id child) \<noteq> None) (n_children current_node);
            st2 = st1\<lparr>node_map := (node_map st1)(n_id current_node \<mapsto> current_node\<lparr>n_children := cs\<rparr>)\<rparr>
        in case expand_children fuel current_node 0 cs st2 of
             None \<Rightarrow> None
           | Some (Inl e) \<Rightarrow> Some (Inl e)
           | Some (Inr (cs', st3)) \<Rightarrow> Some (Inr (Some (current_node\<lparr>n_children := cs'\<rparr>), st3)))"
| "expand_children fuel current_node i cs st =
     (if i < length cs then
        let child = cs ! i in
        case node_map st (r_id child) of
          None \<Rightarrow> Some (Inl (KeyError (r_id child)))
        | Some child_node \<Rightarrow>
            (case build_node_tree fuel child_node st of
               None \<Rightarrow> None
             | Some (Inl e) \<Rightarrow> Some (Inl e)
             | Some (Inr (built_child, st1)) \<Rightarrow>
                 let cs' = (case built_child of
                              Some b \<Rightarrow> cs[i := set_children child (n_children b)]
                            | None \<Rightarrow> remove1 child cs);
                     st2 = st1\<lparr>node_map := (node_map st1)(n_id current_node \<mapsto> current_node\<lparr>n_children := cs'\<rparr>)\<rparr>
                 in expand_children fuel current_node (Suc i) cs' st2)
      else Some (Inr (cs, st)))"
  by pat_completeness auto
termination
  by (relation "measures
         [\<lambda>x. case x of
                 Inl (fuel, current_node, st) \<Rightarrow> fuel
               | Inr (fuel, current_node, i, cs, st) \<Rightarrow> fuel,
          \<lambda>x. case x of
                 Inl (fuel, current_node, st) \<Rightarrow> 0
               | Inr (fuel, current_node, i, cs, st) \<Rightarrow> Suc (length cs - i)]")
     (auto simp: length_remove1 split: option.splits)

text \<open>
  \<^verbatim>\<open>_build_tree\<close>. The dictionary comprehension keeps the last record of an id. The
  recursion is at most one call deeper than the number of records, so that bound is
  the one given to \<open>build_node_tree\<close>.
\<close>

definition make_node_map :: "node list \<Rightarrow> (string \<rightharpoonup> node)" where
  "make_node_map nodes = fold (\<lambda>node m. m(n_id node \<mapsto> node)) nodes Map.empty"

definition build_tree :: "node list \<Rightarrow> string \<Rightarrow> (py_error + node option \<times> bstate) option" where
  "build_tree nodes root_id =
     (let st = \<lparr>node_map = make_node_map nodes, visited = {}\<rparr> in
      case node_map st root_id of
        None \<Rightarrow> Some (Inr (None, st))
      | Some root \<Rightarrow> build_node_tree (Suc (length nodes)) root st)"

section \<open>The response assembler\<close>

text \<open>
  \<^verbatim>\<open>process_node\<close> is applied to the root record and, in its loop, to every child
  reference; \<open>process_ref\<close> is the function on a child reference, where
  \<^verbatim>\<open>node.get("children", [])\<close> is empty when the key is not there, and \<open>process_node\<close>
  the function on the root record. The caller's loop sets the \<^verbatim>\<open>relationship\<close> key of
  each processed child.
\<close>

fun set_relationship :: "tree_node \<Rightarrow> string \<Rightarrow> tree_node" where
  "set_relationship (TreeNode i n t f s e cs rel) v = TreeNode i n t f s e cs (Some v)"

fun process_ref :: "ref \<Rightarrow> tree_node" where
  "process_ref (Ref i n t f s e rel ch) =
     TreeNode i n t (get_relative_file_path f) s e
       (map (\<lambda>child. set_relationship (process_ref child) (relationship child))
            (case ch of None \<Rightarrow> [] | Some cs \<Rightarrow> cs))
       None"

definition process_node :: "node \<Rightarrow> tree_node" where
  "process_node node =
     TreeNode (n_id node) (n_name node) (n_type node)
       (get_relative_file_path (n_file_path node)) (n_start_line node) (n_end_line node)
       (map (\<lambda>child. set_relationship (process_ref child) (relationship child))
            (n_children node))
       None"

record project =
  repo_name :: string
  branch_name :: string

record code_graph =
  g_name :: string
  g_repo_name :: string
  g_branch_name :: string
  g_root_node :: tree_node

text \<open>The two shapes of the dictionary that \<^verbatim>\<open>run\<close> returns.\<close>

datatype response = Graph code_graph | Error string

definition process_graph_data :: "node \<Rightarrow> project \<Rightarrow> response" where
  "process_graph_data graph_data project =
     Graph \<lparr>g_name = ''Code Graph for '' @ repo_name project,
            g_repo_name = repo_name project,
            g_branch_name = branch_name project,
            g_root_node = process_node graph_data\<rparr>"

section \<open>The operation\<close>

text \<open>
  The two stores are parameters: \<open>find_project\<close> is the relational lookup of
  \<^verbatim>\<open>_get_project\<close> and \<open>run_query\<close> the graph query of \<^verbatim>\<open>_get_graph_data\<close>, given the node
  id and the project id. Either may raise: \<open>Inl msg\<close> is an exception whose
  \<^verbatim>\<open>str\<close> is \<open>msg\<close>.
\<close>

record env =
  find_project :: "string \<Rightarrow> string + project option"
  run_query :: "string \<Rightarrow> string \<Rightarrow> string + node list"

text \<open>
  \<^verbatim>\<open>str(KeyError(key))\<close> is the \<^verbatim>\<open>repr\<close> of the key: the key in quotes, for a key
  without quotes or escapes.
\<close>

fun str_error :: "py_error \<Rightarrow> string" where
  "str_error (KeyError k) = [CHR 0x27] @ k @ [CHR 0x27]"

text \<open>
  \<^verbatim>\<open>_get_graph_data\<close>: the result, and the queries sent to the graph store. \<open>None\<close>
  means that the tree builder did not return.
\<close>

definition get_graph_data ::
  "env \<Rightarrow> string \<Rightarrow> string \<Rightarrow> ((string + node option) \<times> (string \<times> string) list) option" where
  "get_graph_data e project_id node_id =
     (case run_query e node_id project_id of
        Inl msg \<Rightarrow> Some (Inl msg, [(node_id, project_id)])
      | Inr nodes \<Rightarrow>
          if nodes = [] then Some (Inr None, [(node_id, project_id)])
          else (case build_tree nodes node_id of
                  None \<Rightarrow> None
                | Some (Inl err) \<Rightarrow> Some (Inl (str_error err), [(node_id, project_id)])
                | Some (Inr (tree, st)) \<Rightarrow> Some (Inr tree, [(node_id, project_id)])))"

text \<open>
  \<^verbatim>\<open>run\<close>: the returned dictionary and the queries sent to the graph store. The
  \<^verbatim>\<open>except Exception\<close> clause turns every \<open>Inl msg\<close> into an error value.
\<close>

definition run :: "env \<Rightarrow> string \<Rightarrow> string \<Rightarrow> (response \<times> (string \<times> string) list) option" where
  "run e project_id node_id =
     (case find_project e project_id of
        Inl msg \<Rightarrow> Some (Error (''An unexpected error occurred: '' @ msg), [])
      | Inr None \<Rightarrow>
          Some (Error (''Project with ID '' @ [CHR 0x27] @ project_id @ [CHR 0x27]
                       @ '' not found in database''), [])
      | Inr (Some project) \<Rightarrow>
          (case get_graph_data e project_id node_id of
             None \<Rightarrow> None
           | Some (Inl msg, qs) \<Rightarrow> Some (Error (''An unexpected error occurred: '' @ msg), qs)
           | Some (Inr None, qs) \<Rightarrow>
               Some (Error (''No graph data found for node ID '' @ [CHR 0x27] @ node_id @ [CHR 0x27]
                            @ '' in repo '' @ [CHR 0x27] @ project_id @ [CHR 0x27]), qs)
           | Some (Inr (Some graph_data), qs) \<Rightarrow> Some (process_graph_data graph_data project, qs)))"

section \<open>Reading a tree\<close>

text \<open>The ids of a built tree in pre-order, and the ids along each path from a node to a leaf.\<close>

fun ref_ids :: "ref \<Rightarrow> string list" where
  "ref_ids (Ref i n t f s e rel ch) =
     i # concat (map ref_ids (case ch of None \<Rightarrow> [] | Some cs \<Rightarrow> cs))"

definition node_ids :: "node \<Rightarrow> string list" where
  "node_ids node = n_id node # concat (map ref_ids (n_children node))"

fun ref_paths :: "ref \<Rightarrow> string list list" where
  "ref_paths (Ref i n t f s e rel ch) =
     (let cs = (case ch of None \<Rightarrow> [] | Some cs \<Rightarrow> cs) in
      if cs = [] then [[i]] else map ((#) i) (concat (map ref_paths cs)))"

definition node_paths :: "node \<Rightarrow> string list list" where
  "node_paths node =
     (if n_children node = [] then [[n_id node]]
      else map ((#) (n_id node)) (concat (map ref_paths (n_children node))))"

text \<open>The file paths of the input tree and of the response tree, in pre-order.\<close>

fun ref_file_paths :: "ref \<Rightarrow> string list" where
  "ref_file_paths (Ref i n t f s e rel ch) =
     f # concat (map ref_file_paths (case ch of None \<Rightarrow> [] | Some cs \<Rightarrow> cs))"

definition node_file_paths :: "node \<Rightarrow> string list" where
  "node_file_paths node = n_file_path node # concat (map ref_file_paths (n_children node))"

fun tree_file_paths :: "tree_node \<Rightarrow> string list" where
  "tree_file_paths (TreeNode i n t f s e cs rel) = f # concat (map tree_file_paths cs)"

section \<open>Invariants of the tree builder\<close>

text \<open>
  A store is well formed when it has finitely many records and each key is the id of
  its record, as the dictionary comprehension of \<^verbatim>\<open>_build_tree\<close> leaves it.
\<close>

definition wf_store :: "bstate \<Rightarrow> bool" where
  "wf_store st \<longleftrightarrow>
     finite (dom (node_map st)) \<and> (\<forall>k n. node_map st k = Some n \<longrightarrow> n_id n = k)"

text \<open>The ids of the store that the builder has not entered yet.\<close>

definition unvisited :: "bstate \<Rightarrow> string set" where
  "unvisited st = dom (node_map st) - visited st"

text \<open>
  What a run from \<open>st\<close> to \<open>st'\<close> may change: no record is added or removed, the
  visited set only grows, a record outside \<open>W\<close> that was visited before or is not
  visited afterwards is as it was, and every record keeps all fields but its children.
\<close>

definition frame :: "string set \<Rightarrow> bstate \<Rightarrow> bstate \<Rightarrow> bool" where
  "frame W st st' \<longleftrightarrow>
     wf_store st' \<and> dom (node_map st') = dom (node_map st) \<and> visited st \<subseteq> visited st'
     \<and> (\<forall>k. k \<notin> W \<longrightarrow> k \<in> visited st \<or> k \<notin> visited st' \<longrightarrow> node_map st' k = node_map st k)
     \<and> (\<forall>k n'. node_map st' k = Some n' \<longrightarrow>
           (\<exists>n cs. node_map st k = Some n \<and> n' = n\<lparr>n_children := cs\<rparr>))"

text \<open>
  The result of \<^verbatim>\<open>build_node_tree\<close>: nothing for a visited node, and otherwise the
  node with a new list of children, which is also what the store then holds for it.
\<close>

definition build_post :: "node \<Rightarrow> bstate \<Rightarrow> node option \<Rightarrow> bstate \<Rightarrow> bool" where
  "build_post cur st r st' \<longleftrightarrow>
     frame {} st st'
     \<and> (n_id cur \<in> visited st \<longrightarrow> r = None \<and> st' = st)
     \<and> (n_id cur \<notin> visited st \<longrightarrow>
          n_id cur \<in> visited st' \<and> (\<exists>cs'. r = Some (cur\<lparr>n_children := cs'\<rparr>)) \<and> node_map st' (n_id cur) = r)"

text \<open>The result of the loop: the final list is the one in the record of the current node.\<close>

definition expand_post :: "node \<Rightarrow> bstate \<Rightarrow> ref list \<Rightarrow> bstate \<Rightarrow> bool" where
  "expand_post cur st cs' st' \<longleftrightarrow>
     frame {n_id cur} st st' \<and> node_map st' (n_id cur) = Some (cur\<lparr>n_children := cs'\<rparr>)"

section \<open>Results of the tree builder\<close>

text \<open>The state that \<^verbatim>\<open>_build_tree\<close> leaves, and the value that it returns.\<close>

definition final_state :: "node list \<Rightarrow> string \<Rightarrow> bstate option" where
  "final_state nodes root_id =
     (case build_tree nodes root_id of Some (Inr (r, st')) \<Rightarrow> Some st' | _ \<Rightarrow> None)"

definition build_result :: "node list \<Rightarrow> string \<Rightarrow> (py_error + node option) option" where
  "build_result nodes root_id = map_option (map_sum id fst) (build_tree nodes root_id)"

text \<open>A record and a child reference with the given id, for concrete inputs.\<close>

definition ex_node :: "string \<Rightarrow> ref list \<Rightarrow> node" where
  "ex_node i cs = \<lparr>n_id = i, n_name = i, n_type = ''FUNCTION'', n_file_path = ''Unknown'',
                  n_start_line = None, n_end_line = None, n_children = cs\<rparr>"

definition ex_ref :: "string \<Rightarrow> string \<Rightarrow> ref" where
  "ex_ref i rel = Ref i i ''FUNCTION'' ''Unknown'' None None rel None"

text \<open>
  The record that the store holds for an id when \<^verbatim>\<open>_build_tree\<close> has returned, and the
  ids that it has visited.
\<close>

definition record_after :: "node list \<Rightarrow> string \<Rightarrow> string \<Rightarrow> node option" where
  "record_after nodes root_id k =
     (case final_state nodes root_id of Some st' \<Rightarrow> node_map st' k | None \<Rightarrow> None)"

definition visited_after :: "node list \<Rightarrow> string \<Rightarrow> string set" where
  "visited_after nodes root_id =
     (case final_state nodes root_id of Some st' \<Rightarrow> visited st' | None \<Rightarrow> {})"

section \<open>Reading a response\<close>

text \<open>
  A path is absolute when it begins with the separator, and the file paths of a response
  are those of its tree; an error response has none.
\<close>

definition is_absolute :: "string \<Rightarrow> bool" where
  "is_absolute p = (case p of [] \<Rightarrow> False | c # cs \<Rightarrow> c = CHR ''/'')"

definition response_file_paths :: "response \<Rightarrow> string list" where
  "response_file_paths r =
     (case r of Graph g \<Rightarrow> tree_file_paths (g_root_node g) | Error msg \<Rightarrow> [])"

text \<open>Stores that answer every request with the given results, for concrete inputs.\<close>

definition ex_env :: "(string + project option) \<Rightarrow> (string + node list) \<Rightarrow> env" where
  "ex_env p q = \<lparr>find_project = (\<lambda>project_id. p), run_query = (\<lambda>node_id project_id. q)\<rparr>"

section \<open>Properties of the path normalizer\<close>

lemma index_None_iff: "index xs x = None \<longleftrightarrow> x \<notin> set xs"
  by (induction xs) (auto split: option.splits)

lemma index_Some_nth: "index xs x = Some i \<Longrightarrow> i < length xs \<and> xs ! i = x \<and> x \<notin> set (take i xs)"
proof (induction xs arbitrary: i)
  case Nil
  then show ?case by simp
next
  case (Cons y ys)
  then show ?case
    by (cases "y = x") (auto split: option.splits)
qed

text \<open>
  Claim C7. The path normalizer maps both \<open>''Unknown''\<close> and the empty string to
  \<open>''Unknown''\<close>, maps \<open>''/home/user/projects/abc123/src/main.py''\<close> to
  \<open>''src/main.py''\<close>, and returns a path with no \<open>''projects''\<close> segment, such as
  \<open>''/var/data/other/file.py''\<close>, unchanged (the empty path being the one of the first
  clause).
\<close>

theorem normalize_examples:
  "get_relative_file_path ''Unknown'' = ''Unknown''
   \<and> get_relative_file_path '''' = ''Unknown''
   \<and> get_relative_file_path ''/home/user/projects/abc123/src/main.py'' = ''src/main.py''
   \<and> get_relative_file_path ''/var/data/other/file.py'' = ''/var/data/other/file.py''
   \<and> (\<forall>p. p \<noteq> [] \<longrightarrow> ''projects'' \<notin> set (split CHR ''/'' p) \<longrightarrow> get_relative_file_path p = p)"
proof -
  have general: "get_relative_file_path p = p"
    if "p \<noteq> []" and "''projects'' \<notin> set (split CHR ''/'' p)" for p
  proof -
    from that(2) have "index (split CHR ''/'' p) ''projects'' = None"
      by (simp add: index_None_iff)
    with that(1) show ?thesis
      by (simp add: get_relative_file_path_def)
  qed
  have "get_relative_file_path ''Unknown'' = ''Unknown''"
    by (simp add: get_relative_file_path_def)
  moreover have "get_relative_file_path '''' = ''Unknown''"
    by (simp add: get_relative_file_path_def)
  moreover have "get_relative_file_path ''/home/user/projects/abc123/src/main.py'' = ''src/main.py''"
    by (simp add: get_relative_file_path_def)
  moreover have "get_relative_file_path ''/var/data/other/file.py'' = ''/var/data/other/file.py''"
    by (simp add: get_relative_file_path_def)
  ultimately show ?thesis
    using general by blast
qed

theorem normalize_examples_witness:
  "''/srv/data/readme.md'' \<noteq> [] \<and> ''projects'' \<notin> set (split CHR ''/'' ''/srv/data/readme.md'')
   \<and> get_relative_file_path ''/srv/data/readme.md'' = ''/srv/data/readme.md''"
proof -
  have h1: "''/srv/data/readme.md'' \<noteq> []" by simp
  have h2: "''projects'' \<notin> set (split CHR ''/'' ''/srv/data/readme.md'')" by simp
  from normalize_examples
  have "\<forall>p. p \<noteq> [] \<longrightarrow> ''projects'' \<notin> set (split CHR ''/'' p) \<longrightarrow> get_relative_file_path p = p"
    by (elim conjE)
  with h1 h2 show ?thesis by blast
qed

text \<open>
  Claim C10, as stated: every non-empty path other than \<open>''Unknown''\<close> that has
  \<open>''projects''\<close> as its last or second-to-last segment is normalized to the empty
  string. It fails when an earlier segment is \<open>''projects''\<close> too, since
  \<^verbatim>\<open>list.index\<close> finds the first one: \<open>''/projects/a/b/projects/repo''\<close> has the anchor
  as its second-to-last segment and is normalized to \<open>''b/projects/repo''\<close>.
\<close>

theorem anchor_at_end_counterexample:
  "''/projects/a/b/projects/repo'' \<noteq> [] \<and> ''/projects/a/b/projects/repo'' \<noteq> ''Unknown''
   \<and> split CHR ''/'' ''/projects/a/b/projects/repo''
       ! (length (split CHR ''/'' ''/projects/a/b/projects/repo'') - 2) = ''projects''
   \<and> get_relative_file_path ''/projects/a/b/projects/repo'' = ''b/projects/repo''
   \<and> get_relative_file_path ''/projects/a/b/projects/repo'' \<noteq> []"
  by (simp add: get_relative_file_path_def)

text \<open>
  Claim C10, amended: every non-empty path other than \<open>''Unknown''\<close> whose first
  \<open>''projects''\<close> segment is its last or second-to-last segment is normalized to the
  empty string.
\<close>

theorem first_anchor_at_end:
  assumes "file_path \<noteq> []" and "file_path \<noteq> ''Unknown''"
    and "index (split CHR ''/'' file_path) ''projects'' = Some i"
    and "Suc i = length (split CHR ''/'' file_path) \<or> Suc (Suc i) = length (split CHR ''/'' file_path)"
  shows "get_relative_file_path file_path = []"
  using assms by (auto simp: get_relative_file_path_def)

theorem first_anchor_at_end_witness:
  "''/home/user/projects/repo'' \<noteq> [] \<and> ''/home/user/projects/repo'' \<noteq> ''Unknown''
   \<and> index (split CHR ''/'' ''/home/user/projects/repo'') ''projects'' = Some 3
   \<and> Suc (Suc 3) = length (split CHR ''/'' ''/home/user/projects/repo'')
   \<and> get_relative_file_path ''/home/user/projects/repo'' = []"
proof -
  have h1: "''/home/user/projects/repo'' \<noteq> []" by simp
  have h2: "''/home/user/projects/repo'' \<noteq> ''Unknown''" by simp
  have h3: "index (split CHR ''/'' ''/home/user/projects/repo'') ''projects'' = Some 3" by simp
  have h4: "Suc (Suc 3) = length (split CHR ''/'' ''/home/user/projects/repo'')" by simp
  from first_anchor_at_end [OF h1 h2 h3] h4
  have "get_relative_file_path ''/home/user/projects/repo'' = []" by blast
  with h1 h2 h3 h4 show ?thesis by blast
qed

section \<open>The frame of the tree builder\<close>

lemma frame_refl: "wf_store st \<Longrightarrow> frame W st st"
proof -
  have "\<exists>n cs. node_map st k = Some n \<and> n' = n\<lparr>n_children := cs\<rparr>"
    if "node_map st k = Some n'" for k n'
  proof -
    have "n' = n'\<lparr>n_children := n_children n'\<rparr>" by simp
    with that show ?thesis by blast
  qed
  then show "wf_store st \<Longrightarrow> frame W st st"
    unfolding frame_def by simp
qed

lemma frame_trans:
  assumes "frame W a b" and "frame W b c"
  shows "frame W a c"
proof -
  have sc: "\<exists>n cs. node_map a k = Some n \<and> n'' = n\<lparr>n_children := cs\<rparr>"
    if "node_map c k = Some n''" for k n''
  proof -
    from that assms(2) obtain n' cs' where n': "node_map b k = Some n'" "n'' = n'\<lparr>n_children := cs'\<rparr>"
      unfolding frame_def by blast
    from n'(1) assms(1) obtain n cs where n: "node_map a k = Some n" "n' = n\<lparr>n_children := cs\<rparr>"
      unfolding frame_def by blast
    from n'(2) n(2) have "n'' = n\<lparr>n_children := cs'\<rparr>"
      by simp
    with n(1) show ?thesis by blast
  qed
  have fr: "node_map c k = node_map a k" if "k \<notin> W" "k \<in> visited a \<or> k \<notin> visited c" for k
  proof -
    from assms have sub: "visited a \<subseteq> visited b" "visited b \<subseteq> visited c"
      unfolding frame_def by auto
    from assms(2) have "\<forall>k. k \<notin> W \<longrightarrow> k \<in> visited b \<or> k \<notin> visited c \<longrightarrow> node_map c k = node_map b k"
      unfolding frame_def by simp
    with that sub have "node_map c k = node_map b k" by blast
    moreover from assms(1) have "\<forall>k. k \<notin> W \<longrightarrow> k \<in> visited a \<or> k \<notin> visited b \<longrightarrow> node_map b k = node_map a k"
      unfolding frame_def by simp
    with that sub have "node_map b k = node_map a k" by blast
    ultimately show ?thesis by simp
  qed
  from assms have "wf_store c" "dom (node_map c) = dom (node_map a)" "visited a \<subseteq> visited c"
    unfolding frame_def by auto
  with sc fr show ?thesis
    unfolding frame_def by simp
qed

lemma frame_weaken: "frame {} a b \<Longrightarrow> frame W a b"
  by (auto simp: frame_def)

lemma frame_write:
  assumes "wf_store st" and "node_map st k = Some (n\<lparr>n_children := cs\<rparr>)"
    and "node_map st' = (node_map st)(k \<mapsto> n\<lparr>n_children := cs'\<rparr>)"
    and "visited st' = visited st"
  shows "frame {k} st st'"
proof -
  from assms(1,2) have "n_id (n\<lparr>n_children := cs\<rparr>) = k"
    unfolding wf_store_def by blast
  then have idk: "n_id n = k" by simp
  have wf: "wf_store st'"
    using assms(1,3) idk by (auto simp: wf_store_def)
  have d: "dom (node_map st') = dom (node_map st)"
    using assms(2,3) by auto
  have sc: "\<exists>m cs. node_map st j = Some m \<and> n' = m\<lparr>n_children := cs\<rparr>"
    if "node_map st' j = Some n'" for j n'
  proof (cases "j = k")
    case True
    with that assms(3) have "n' = (n\<lparr>n_children := cs\<rparr>)\<lparr>n_children := cs'\<rparr>" by simp
    with True assms(2) show ?thesis by blast
  next
    case False
    with that assms(3) have "node_map st j = Some n'" by simp
    moreover have "n' = n'\<lparr>n_children := n_children n'\<rparr>" by simp
    ultimately show ?thesis by blast
  qed
  have fr: "\<forall>j. j \<notin> {k} \<longrightarrow> j \<in> visited st \<or> j \<notin> visited st' \<longrightarrow> node_map st' j = node_map st j"
    using assms(3) by simp
  from wf d sc fr assms(4) show ?thesis
    unfolding frame_def by simp
qed

lemma frame_enter:
  assumes "wf_store st" and "node_map st c = Some n" and "c \<notin> visited st"
    and "node_map st2 = (node_map st)(c \<mapsto> n\<lparr>n_children := cs\<rparr>)"
    and "visited st2 = insert c (visited st)"
    and "frame {c} st2 st3"
  shows "frame {} st st3"
proof -
  have sc: "\<exists>m cs. node_map st k = Some m \<and> n' = m\<lparr>n_children := cs\<rparr>"
    if "node_map st3 k = Some n'" for k n'
  proof -
    from that assms(6) obtain m' cs' where m': "node_map st2 k = Some m'" "n' = m'\<lparr>n_children := cs'\<rparr>"
      unfolding frame_def by blast
    show ?thesis
    proof (cases "k = c")
      case True
      with m'(1) assms(4) have "m' = n\<lparr>n_children := cs\<rparr>" by simp
      with m'(2) have "n' = n\<lparr>n_children := cs'\<rparr>" by simp
      with True assms(2) show ?thesis by blast
    next
      case False
      with m'(1) assms(4) have "node_map st k = Some m'" by simp
      with m'(2) show ?thesis by blast
    qed
  qed
  have vis: "visited st2 \<subseteq> visited st3" using assms(6) unfolding frame_def by simp
  have fr: "node_map st3 k = node_map st k" if "k \<in> visited st \<or> k \<notin> visited st3" for k
  proof -
    from assms(5) vis have "c \<in> visited st3" by auto
    with that assms(3) have kc: "k \<noteq> c" by auto
    from that assms(5) have "k \<in> visited st2 \<or> k \<notin> visited st3" by auto
    moreover from assms(6) have "\<forall>k. k \<notin> {c} \<longrightarrow> k \<in> visited st2 \<or> k \<notin> visited st3 \<longrightarrow> node_map st3 k = node_map st2 k"
      unfolding frame_def by simp
    ultimately have "node_map st3 k = node_map st2 k"
      using kc by blast
    with kc assms(4) show ?thesis by simp
  qed
  have d: "dom (node_map st3) = dom (node_map st)"
  proof -
    from assms(6) have "dom (node_map st3) = dom (node_map st2)" unfolding frame_def by simp
    also from assms(2,4) have "\<dots> = dom (node_map st)" by auto
    finally show ?thesis .
  qed
  from assms(6) have "wf_store st3" unfolding frame_def by simp
  moreover from vis assms(5) have "visited st \<subseteq> visited st3" by auto
  ultimately show ?thesis
    using d sc fr unfolding frame_def by simp
qed

lemma frame_unvisited:
  assumes "wf_store st" and "frame W st st'"
  shows "card (unvisited st') \<le> card (unvisited st)"
proof -
  from assms(2) have "unvisited st' \<subseteq> unvisited st"
    by (auto simp: frame_def unvisited_def)
  moreover from assms(1) have "finite (unvisited st)"
    by (simp add: wf_store_def unvisited_def)
  ultimately show ?thesis by (rule card_mono[rotated])
qed

lemma enter_unvisited:
  assumes "wf_store st" and "node_map st c = Some n" and "c \<notin> visited st"
    and "node_map st2 = (node_map st)(c \<mapsto> n')"
    and "visited st2 = insert c (visited st)"
    and "card (unvisited st) < Suc fuel"
  shows "card (unvisited st2) < fuel"
proof -
  from assms(2,4,5) have eq: "unvisited st2 = unvisited st - {c}"
    by (auto simp: unvisited_def)
  from assms(1) have fin: "finite (unvisited st)"
    by (simp add: wf_store_def unvisited_def)
  from assms(2,3) have "c \<in> unvisited st" by (auto simp: unvisited_def)
  with fin have "card (unvisited st - {c}) < card (unvisited st)"
    by (rule card_Diff1_less)
  with eq assms(6) show ?thesis by simp
qed

declare build_node_tree.simps [simp del] expand_children.simps [simp del]

lemma set_children_id [simp]: "r_id (set_children c cs) = r_id c"
  by (cases c) simp

lemma build_visited:
  assumes "n_id cur \<in> visited st"
  shows "build_node_tree (Suc fuel) cur st = Some (Inr (None, st))"
  using assms by (simp add: build_node_tree.simps)

lemma build_expand_returns:
  "wf_store st \<Longrightarrow> node_map st (n_id current_node) = Some current_node \<Longrightarrow>
   card (unvisited st) < fuel \<Longrightarrow>
     \<exists>r st'. build_node_tree fuel current_node st = Some (Inr (r, st'))
              \<and> build_post current_node st r st'"
  "wf_store st \<Longrightarrow> node_map st (n_id current_node) = Some (current_node\<lparr>n_children := cs\<rparr>) \<Longrightarrow>
   n_id current_node \<in> visited st \<Longrightarrow> \<forall>c\<in>set cs. r_id c \<in> dom (node_map st) \<Longrightarrow>
   card (unvisited st) < fuel \<Longrightarrow>
     \<exists>cs' st'. expand_children fuel current_node i cs st = Some (Inr (cs', st'))
                \<and> expand_post current_node st cs' st'"
proof (induction fuel current_node st and fuel current_node i cs st
       rule: build_node_tree_expand_children.induct)
  case (1 current_node st)
  then show ?case by simp
next
  case (2 fuel current_node st)
  show ?case
  proof (cases "n_id current_node \<in> visited st")
    case True
    with "2.prems"(1) show ?thesis
      by (simp add: build_visited build_post_def frame_refl)
  next
    case False
    define st1 where "st1 = st\<lparr>visited := insert (n_id current_node) (visited st)\<rparr>"
    define cs where "cs = filter (\<lambda>child. node_map st1 (r_id child) \<noteq> None) (n_children current_node)"
    define st2 where "st2 = st1\<lparr>node_map := (node_map st1)(n_id current_node \<mapsto> current_node\<lparr>n_children := cs\<rparr>)\<rparr>"
    have nm2: "node_map st2 = (node_map st)(n_id current_node \<mapsto> current_node\<lparr>n_children := cs\<rparr>)"
      and vis2: "visited st2 = insert (n_id current_node) (visited st)"
      by (simp_all add: st2_def st1_def)
    have wf2: "wf_store st2"
      using "2.prems"(1) nm2 by (auto simp: wf_store_def)
    have at2: "node_map st2 (n_id current_node) = Some (current_node\<lparr>n_children := cs\<rparr>)"
      by (simp add: nm2)
    have in2: "n_id current_node \<in> visited st2"
      by (simp add: vis2)
    have dom2: "\<forall>c\<in>set cs. r_id c \<in> dom (node_map st2)"
      by (auto simp: cs_def nm2 st1_def)
    have card2: "card (unvisited st2) < fuel"
      using "2.prems"(1,2) False nm2 vis2 "2.prems"(3) by (rule enter_unvisited)
    from "2.IH" [OF False st1_def cs_def st2_def wf2 at2 in2 dom2 card2]
    obtain cs' st3 where ex: "expand_children fuel current_node 0 cs st2 = Some (Inr (cs', st3))"
      and post: "expand_post current_node st2 cs' st3"
      by blast
    have res: "build_node_tree (Suc fuel) current_node st
                 = Some (Inr (Some (current_node\<lparr>n_children := cs'\<rparr>), st3))"
      using False ex by (simp add: build_node_tree.simps Let_def st1_def cs_def st2_def)
    from post have f3: "frame {n_id current_node} st2 st3"
      and at3: "node_map st3 (n_id current_node) = Some (current_node\<lparr>n_children := cs'\<rparr>)"
      by (simp_all add: expand_post_def)
    have "frame {} st st3"
      using "2.prems"(1,2) False nm2 vis2 f3 by (rule frame_enter)
    moreover from f3 in2 have "n_id current_node \<in> visited st3"
      unfolding frame_def by blast
    ultimately have "build_post current_node st (Some (current_node\<lparr>n_children := cs'\<rparr>)) st3"
      using False at3 by (auto simp: build_post_def)
    with res show ?thesis by blast
  qed
next
  case (3 fuel current_node i cs st)
  show ?case
  proof (cases "i < length cs")
    case False
    then have "expand_children fuel current_node i cs st = Some (Inr (cs, st))"
      by (simp add: expand_children.simps)
    moreover have "expand_post current_node st cs st"
      using "3.prems"(1,2) by (simp add: expand_post_def frame_refl)
    ultimately show ?thesis by blast
  next
    case True
    define child where "child = cs ! i"
    from True have child_in: "child \<in> set cs" by (simp add: child_def)
    with "3.prems"(4) obtain child_node where cn: "node_map st (r_id child) = Some child_node"
      by blast
    with "3.prems"(1) have idc: "n_id child_node = r_id child"
      by (auto simp: wf_store_def)
    with cn have at: "node_map st (n_id child_node) = Some child_node" by simp
    from "3.IH"(1) [OF True child_def cn "3.prems"(1) at "3.prems"(5)]
    obtain built_child st1 where b: "build_node_tree fuel child_node st = Some (Inr (built_child, st1))"
      and bpost: "build_post child_node st built_child st1"
      by blast
    define cs' where "cs' = (case built_child of
                              Some b \<Rightarrow> cs[i := set_children child (n_children b)]
                            | None \<Rightarrow> remove1 child cs)"
    define st2 where "st2 = st1\<lparr>node_map := (node_map st1)(n_id current_node \<mapsto> current_node\<lparr>n_children := cs'\<rparr>)\<rparr>"
    have nm2: "node_map st2 = (node_map st1)(n_id current_node \<mapsto> current_node\<lparr>n_children := cs'\<rparr>)"
      and vis2: "visited st2 = visited st1"
      by (simp_all add: st2_def)
    from bpost have f1: "frame {} st st1" by (simp add: build_post_def)
    then have wf1: "wf_store st1" and dom1: "dom (node_map st1) = dom (node_map st)"
      and vis1: "visited st \<subseteq> visited st1"
      by (simp_all add: frame_def)
    have cur1: "node_map st1 (n_id current_node) = Some (current_node\<lparr>n_children := cs\<rparr>)"
    proof -
      from f1 have "\<forall>k. k \<notin> {} \<longrightarrow> k \<in> visited st \<or> k \<notin> visited st1 \<longrightarrow> node_map st1 k = node_map st k"
        unfolding frame_def by simp
      with "3.prems"(3) have "node_map st1 (n_id current_node) = node_map st (n_id current_node)"
        by blast
      with "3.prems"(2) show ?thesis by simp
    qed
    have f12: "frame {n_id current_node} st1 st2"
      using wf1 cur1 nm2 vis2 by (rule frame_write)
    then have wf2: "wf_store st2" by (simp add: frame_def)
    have at2: "node_map st2 (n_id current_node) = Some (current_node\<lparr>n_children := cs'\<rparr>)"
      by (simp add: nm2)
    have in2: "n_id current_node \<in> visited st2"
      using "3.prems"(3) vis1 vis2 by auto
    have sub: "r_id ` set cs' \<subseteq> r_id ` set cs"
    proof (cases built_child)
      case None
      then show ?thesis using set_remove1_subset[of child cs] by (auto simp: cs'_def)
    next
      case (Some b)
      have "set (cs[i := set_children child (n_children b)])
              \<subseteq> insert (set_children child (n_children b)) (set cs)"
        by (rule set_update_subset_insert)
      with Some child_in show ?thesis by (auto simp: cs'_def)
    qed
    have dom2: "\<forall>c\<in>set cs'. r_id c \<in> dom (node_map st2)"
    proof
      fix c assume "c \<in> set cs'"
      with sub obtain c0 where "c0 \<in> set cs" "r_id c0 = r_id c" by force
      with "3.prems"(4) have "r_id c \<in> dom (node_map st)" by force
      with dom1 nm2 show "r_id c \<in> dom (node_map st2)" by auto
    qed
    have card2: "card (unvisited st2) < fuel"
    proof -
      have "card (unvisited st2) \<le> card (unvisited st1)"
        using wf1 f12 by (rule frame_unvisited)
      also have "\<dots> \<le> card (unvisited st)"
        using "3.prems"(1) f1 by (rule frame_unvisited)
      finally show ?thesis using "3.prems"(5) by simp
    qed
    from "3.IH"(2) [OF True child_def cn b refl refl cs'_def st2_def wf2 at2 in2 dom2 card2]
    obtain cs'' st' where ex: "expand_children fuel current_node (Suc i) cs' st2 = Some (Inr (cs'', st'))"
      and post: "expand_post current_node st2 cs'' st'"
      by blast
    have res: "expand_children fuel current_node i cs st = Some (Inr (cs'', st'))"
      using True cn b ex unfolding cs'_def st2_def child_def
      by (subst expand_children.simps) (simp add: Let_def)
    from post have f2: "frame {n_id current_node} st2 st'"
      and at': "node_map st' (n_id current_node) = Some (current_node\<lparr>n_children := cs''\<rparr>)"
      by (simp_all add: expand_post_def)
    have "frame {n_id current_node} st st1" using f1 by (rule frame_weaken)
    then have "frame {n_id current_node} st st2" using f12 by (rule frame_trans)
    then have "frame {n_id current_node} st st'" using f2 by (rule frame_trans)
    with at' have "expand_post current_node st cs'' st'" by (simp add: expand_post_def)
    with res show ?thesis by blast
  qed
qed

section \<open>The tree builder returns\<close>

lemma fold_upd_lookup:
  "fold (\<lambda>node m. m(n_id node \<mapsto> node)) nodes m0 k = Some n \<Longrightarrow>
     (n \<in> set nodes \<and> n_id n = k) \<or> m0 k = Some n"
proof (induction nodes arbitrary: m0)
  case Nil
  then show ?case by simp
next
  case (Cons a nodes)
  from Cons.prems have "fold (\<lambda>node m. m(n_id node \<mapsto> node)) nodes (m0(n_id a \<mapsto> a)) k = Some n"
    by (simp only: fold_simps)
  from Cons.IH [OF this]
  have "(n \<in> set nodes \<and> n_id n = k) \<or> (m0(n_id a \<mapsto> a)) k = Some n" .
  then show ?case
    by (cases "k = n_id a") auto
qed

lemma fold_upd_dom:
  "dom (fold (\<lambda>node m. m(n_id node \<mapsto> node)) nodes m0) = dom m0 \<union> n_id ` set nodes"
  by (induction nodes arbitrary: m0) auto

lemma make_node_map_Some:
  "make_node_map nodes k = Some n \<Longrightarrow> n \<in> set nodes \<and> n_id n = k"
  using fold_upd_lookup[of nodes Map.empty k n] by (simp add: make_node_map_def)

lemma dom_make_node_map: "dom (make_node_map nodes) = n_id ` set nodes"
  by (simp add: make_node_map_def fold_upd_dom)

lemma wf_store_initial: "wf_store \<lparr>node_map = make_node_map nodes, visited = V\<rparr>"
  by (auto simp: wf_store_def dom_make_node_map dest: make_node_map_Some)

lemma unvisited_initial:
  "card (unvisited \<lparr>node_map = make_node_map nodes, visited = {}\<rparr>) \<le> length nodes"
proof -
  have "card (n_id ` set nodes) \<le> card (set nodes)"
    by (rule card_image_le) simp
  also have "\<dots> \<le> length nodes" by (rule card_length)
  finally show ?thesis by (simp add: unvisited_def dom_make_node_map)
qed

lemma build_tree_absent:
  assumes "root_id \<notin> n_id ` set nodes"
  shows "build_tree nodes root_id = Some (Inr (None, \<lparr>node_map = make_node_map nodes, visited = {}\<rparr>))"
proof -
  from assms have "make_node_map nodes root_id = None"
    using dom_make_node_map[of nodes] by blast
  then show ?thesis by (simp add: build_tree_def)
qed

lemma build_tree_present:
  assumes "root_id \<in> n_id ` set nodes"
  shows "\<exists>root cs' st'. build_tree nodes root_id = Some (Inr (Some (root\<lparr>n_children := cs'\<rparr>), st'))
           \<and> make_node_map nodes root_id = Some root
           \<and> frame {} \<lparr>node_map = make_node_map nodes, visited = {}\<rparr> st'
           \<and> node_map st' root_id = Some (root\<lparr>n_children := cs'\<rparr>)
           \<and> root_id \<in> visited st'"
proof -
  define st where "st = \<lparr>node_map = make_node_map nodes, visited = {}\<rparr>"
  from assms obtain root where root: "make_node_map nodes root_id = Some root"
    using dom_make_node_map[of nodes] by blast
  then have idr: "n_id root = root_id" by (simp add: make_node_map_Some)
  have wf: "wf_store st" unfolding st_def by (rule wf_store_initial)
  have at: "node_map st (n_id root) = Some root" by (simp add: st_def idr root)
  have "card (unvisited st) \<le> length nodes" unfolding st_def by (rule unvisited_initial)
  then have cd: "card (unvisited st) < Suc (length nodes)" by simp
  from build_expand_returns(1) [OF wf at cd]
  obtain r st' where b: "build_node_tree (Suc (length nodes)) root st = Some (Inr (r, st'))"
    and post: "build_post root st r st'"
    by blast
  have nv: "n_id root \<notin> visited st" by (simp add: st_def)
  with post obtain cs' where r: "r = Some (root\<lparr>n_children := cs'\<rparr>)"
    and inv: "n_id root \<in> visited st'" and at': "node_map st' (n_id root) = r"
    and fr: "frame {} st st'"
    unfolding build_post_def by blast
  from root b r have "build_tree nodes root_id = Some (Inr (Some (root\<lparr>n_children := cs'\<rparr>), st'))"
    by (simp add: build_tree_def st_def)
  with root fr at' r inv idr show ?thesis
    unfolding st_def by auto
qed

text \<open>
  Claim C4. For every record list and root id: if the root id is not among the ids of
  the records, the tree builder returns \<^verbatim>\<open>None\<close>; if it is, the builder returns a
  tree whose root has that id (it is a record of the list with that id, with a new list
  of children).
\<close>

theorem build_tree_root:
  "(root_id \<notin> n_id ` set nodes \<longrightarrow> build_result nodes root_id = Some (Inr None))
   \<and> (root_id \<in> n_id ` set nodes \<longrightarrow>
        (\<exists>tree. build_result nodes root_id = Some (Inr (Some tree)) \<and> n_id tree = root_id
                \<and> (\<exists>root\<in>set nodes. n_id root = root_id \<and> tree = root\<lparr>n_children := n_children tree\<rparr>)))"
proof (intro conjI impI)
  assume "root_id \<notin> n_id ` set nodes"
  then show "build_result nodes root_id = Some (Inr None)"
    by (simp add: build_result_def build_tree_absent)
next
  assume "root_id \<in> n_id ` set nodes"
  then obtain root cs' st' where
    b: "build_tree nodes root_id = Some (Inr (Some (root\<lparr>n_children := cs'\<rparr>), st'))"
    and root: "make_node_map nodes root_id = Some root"
    using build_tree_present by blast
  from root have "root \<in> set nodes" "n_id root = root_id"
    by (simp_all add: make_node_map_Some)
  moreover from b have "build_result nodes root_id = Some (Inr (Some (root\<lparr>n_children := cs'\<rparr>)))"
    by (simp add: build_result_def)
  ultimately show "\<exists>tree. build_result nodes root_id = Some (Inr (Some tree)) \<and> n_id tree = root_id
                \<and> (\<exists>root\<in>set nodes. n_id root = root_id \<and> tree = root\<lparr>n_children := n_children tree\<rparr>)"
    by auto
qed

theorem build_tree_root_witness:
  "''Z'' \<notin> n_id ` set [ex_node ''A'' []] \<and> build_result [ex_node ''A'' []] ''Z'' = Some (Inr None)
   \<and> ''A'' \<in> n_id ` set [ex_node ''A'' []]
   \<and> build_result [ex_node ''A'' []] ''A'' = Some (Inr (Some (ex_node ''A'' [])))"
proof -
  have h1: "''Z'' \<notin> n_id ` set [ex_node ''A'' []]" by (simp add: ex_node_def)
  have h2: "''A'' \<in> n_id ` set [ex_node ''A'' []]" by (simp add: ex_node_def)
  from h1 build_tree_root [of "''Z''" "[ex_node ''A'' []]"]
  have r1: "build_result [ex_node ''A'' []] ''Z'' = Some (Inr None)" by blast
  from h2 build_tree_root [of "''A''" "[ex_node ''A'' []]"]
  obtain tree where "build_result [ex_node ''A'' []] ''A'' = Some (Inr (Some tree))" by blast
  moreover have "build_result [ex_node ''A'' []] ''A'' = Some (Inr (Some (ex_node ''A'' [])))"
    by code_simp
  ultimately show ?thesis using h1 h2 r1 by simp
qed

section \<open>The depth bound\<close>

lemma fuel_mono:
  "build_node_tree fuel current_node st = Some r \<Longrightarrow> fuel \<le> fuel' \<Longrightarrow>
     build_node_tree fuel' current_node st = Some r"
  "expand_children fuel current_node i cs st = Some q \<Longrightarrow> fuel \<le> fuel' \<Longrightarrow>
     expand_children fuel' current_node i cs st = Some q"
proof (induction fuel current_node st and fuel current_node i cs st arbitrary: r fuel' and q fuel'
       rule: build_node_tree_expand_children.induct)
  case (1 current_node st)
  then show ?case by (simp add: build_node_tree.simps)
next
  case (2 fuel current_node st)
  from "2.prems"(2) obtain f' where f': "fuel' = Suc f'" "fuel \<le> f'"
    by (cases fuel') auto
  show ?case
  proof (cases "n_id current_node \<in> visited st")
    case True
    with "2.prems"(1) show ?thesis by (simp add: f' build_node_tree.simps)
  next
    case False
    define st1 where "st1 = st\<lparr>visited := insert (n_id current_node) (visited st)\<rparr>"
    define cs where "cs = filter (\<lambda>child. node_map st1 (r_id child) \<noteq> None) (n_children current_node)"
    define st2 where "st2 = st1\<lparr>node_map := (node_map st1)(n_id current_node \<mapsto> current_node\<lparr>n_children := cs\<rparr>)\<rparr>"
    from "2.prems"(1) False obtain q where q: "expand_children fuel current_node 0 cs st2 = Some q"
      unfolding st1_def cs_def st2_def
      by (auto simp: build_node_tree.simps Let_def split: option.splits)
    from "2.IH" [OF False st1_def cs_def st2_def q f'(2)]
    have "expand_children f' current_node 0 cs st2 = Some q" .
    with q "2.prems"(1) False show ?thesis
      unfolding st1_def cs_def st2_def f'
      by (simp add: build_node_tree.simps Let_def)
  qed
next
  case (3 fuel current_node i cs st)
  show ?case
  proof (cases "i < length cs")
    case False
    with "3.prems"(1) show ?thesis by (simp add: expand_children.simps)
  next
    case True
    define child where "child = cs ! i"
    show ?thesis
    proof (cases "node_map st (r_id child)")
      case None
      with True "3.prems"(1) show ?thesis
        unfolding child_def by (simp add: expand_children.simps[of _ _ i])
    next
      case (Some child_node)
      have "build_node_tree fuel child_node st \<noteq> None"
      proof
        assume "build_node_tree fuel child_node st = None"
        with True Some have "expand_children fuel current_node i cs st = None"
          unfolding child_def by (simp add: expand_children.simps[of _ _ i])
        with "3.prems"(1) show False by simp
      qed
      then obtain b where b: "build_node_tree fuel child_node st = Some b" by blast
      from "3.IH"(1) [OF True child_def Some b "3.prems"(2)]
      have b': "build_node_tree fuel' child_node st = Some b" .
      show ?thesis
      proof (cases b)
        case (Inl e)
        with True Some b b' "3.prems"(1) show ?thesis
          unfolding child_def by (simp add: expand_children.simps[of _ _ i])
      next
        case (Inr p)
        obtain built_child st1 where p: "p = (built_child, st1)" by (cases p)
        define cs' where "cs' = (case built_child of
                              Some b \<Rightarrow> cs[i := set_children child (n_children b)]
                            | None \<Rightarrow> remove1 child cs)"
        define st2 where "st2 = st1\<lparr>node_map := (node_map st1)(n_id current_node \<mapsto> current_node\<lparr>n_children := cs'\<rparr>)\<rparr>"
        from b Inr p have bb: "build_node_tree fuel child_node st = Some (Inr (built_child, st1))" by simp
        from "3.prems"(1) True Some bb
        have ex: "expand_children fuel current_node (Suc i) cs' st2 = Some q"
          unfolding cs'_def st2_def child_def
          by (subst (asm) expand_children.simps) (simp add: Let_def)
        from "3.IH"(2) [OF True child_def Some bb refl refl cs'_def st2_def ex "3.prems"(2)]
        have "expand_children fuel' current_node (Suc i) cs' st2 = Some q" .
        with True Some b' Inr p show ?thesis
          unfolding cs'_def st2_def child_def
          by (subst expand_children.simps) (simp add: Let_def)
      qed
    qed
  qed
qed

lemma fuel_agree:
  assumes "build_node_tree f current_node st = Some r"
    and "build_node_tree f' current_node st = Some r'"
  shows "r = r'"
proof (cases "f \<le> f'")
  case True
  with assms(1) have "build_node_tree f' current_node st = Some r" by (rule fuel_mono(1))
  with assms(2) show ?thesis by simp
next
  case False
  then have "f' \<le> f" by simp
  with assms(2) have "build_node_tree f current_node st = Some r'" by (rule fuel_mono(1))
  with assms(1) show ?thesis by simp
qed

lemma build_tree_returns:
  "\<exists>r st'. build_tree nodes root_id = Some (Inr (r, st'))"
proof (cases "root_id \<in> n_id ` set nodes")
  case True
  then show ?thesis using build_tree_present by blast
next
  case False
  then show ?thesis by (simp add: build_tree_absent)
qed

lemma build_result_fuel:
  assumes "make_node_map nodes root_id = Some root"
    and "map_option (map_sum id fst)
           (build_node_tree f root \<lparr>node_map = make_node_map nodes, visited = {}\<rparr>) = Some v"
  shows "build_result nodes root_id = Some v"
proof -
  from assms(2) obtain r where r: "build_node_tree f root \<lparr>node_map = make_node_map nodes, visited = {}\<rparr> = Some r"
    and v: "v = map_sum id fst r"
    by auto
  obtain r' st' where "build_tree nodes root_id = Some (Inr (r', st'))"
    using build_tree_returns by blast
  with assms(1) have "build_node_tree (Suc (length nodes)) root \<lparr>node_map = make_node_map nodes, visited = {}\<rparr> = Some (Inr (r', st'))"
    by (simp add: build_tree_def)
  with r have "r = Inr (r', st')" by (rule fuel_agree)
  with \<open>build_tree nodes root_id = Some (Inr (r', st'))\<close> v show ?thesis
    by (simp add: build_result_def)
qed

section \<open>The loop that removes while it iterates\<close>

text \<open>
  Claim C1 says that every child reference that survives the existence filter is
  expanded, and spliced or dropped. The code at a node \<open>A\<close> that calls itself and then
  \<open>B\<close>, where \<open>B\<close> calls \<open>C\<close>: the self reference is removed from the list that the
  loop runs over, the reference to \<open>B\<close> moves to the position that the iterator has
  passed, and the loop ends. The reference to \<open>B\<close> stays in the result without ever
  being expanded: it has no \<^verbatim>\<open>children\<close> key, although the record of \<open>B\<close> lists \<open>C\<close>.
\<close>

theorem skipped_child_not_expanded:
  "build_result
     [ex_node ''A'' [ex_ref ''A'' ''CALLS'', ex_ref ''B'' ''CALLS''],
      ex_node ''B'' [ex_ref ''C'' ''CALLS''],
      ex_node ''C'' []] ''A''
   = Some (Inr (Some (ex_node ''A'' [ex_ref ''B'' ''CALLS''])))
   \<and> r_children (ex_ref ''B'' ''CALLS'') = None
   \<and> make_node_map
        [ex_node ''A'' [ex_ref ''A'' ''CALLS'', ex_ref ''B'' ''CALLS''],
         ex_node ''B'' [ex_ref ''C'' ''CALLS''],
         ex_node ''C'' []] ''B''
      = Some (ex_node ''B'' [ex_ref ''C'' ''CALLS''])"
  by code_simp

text \<open>
  Claim C2 says that on every record set with a cycle the builder returns a tree in
  which the edge that closes the cycle is dropped and no id occurs twice on a path from
  the root to a leaf. The code on the cycle \<open>A\<close> to \<open>B\<close> and back, where \<open>B\<close> has two
  edges to \<open>A\<close>: it returns, by \<open>build_tree_returns\<close>, but the second edge to \<open>A\<close> is
  skipped by the loop and stays, and the one path of the result is \<open>A\<close>, \<open>B\<close>, \<open>A\<close>.
\<close>

theorem cycle_edge_kept:
  "build_result
     [ex_node ''A'' [ex_ref ''B'' ''CALLS''],
      ex_node ''B'' [ex_ref ''A'' ''CALLS'', ex_ref ''A'' ''REFERENCES'']] ''A''
   = Some (Inr (Some (ex_node ''A''
        [set_children (ex_ref ''B'' ''CALLS'') [ex_ref ''A'' ''REFERENCES'']])))
   \<and> node_paths (ex_node ''A''
        [set_children (ex_ref ''B'' ''CALLS'') [ex_ref ''A'' ''REFERENCES'']])
      = [[''A'', ''B'', ''A'']]
   \<and> \<not> distinct [''A'', ''B'', ''A'']"
  by code_simp

section \<open>The diamond\<close>

lemma make_node_map_member:
  assumes "\<forall>x\<in>set nodes. \<forall>y\<in>set nodes. n_id x = n_id y \<longrightarrow> x = y" and "n \<in> set nodes"
  shows "make_node_map nodes (n_id n) = Some n"
proof -
  from assms(2) have "n_id n \<in> dom (make_node_map nodes)"
    by (simp add: dom_make_node_map)
  then obtain n' where n': "make_node_map nodes (n_id n) = Some n'" by blast
  then have "n' \<in> set nodes" "n_id n' = n_id n" by (simp_all add: make_node_map_Some)
  with assms have "n' = n" by blast
  with n' show ?thesis by simp
qed

lemma ref_ids_set_children [simp]:
  "ref_ids (set_children r cs) = r_id r # concat (map ref_ids cs)"
  by (cases r) simp

lemma diamond_eval:
  assumes ids: "distinct [n_id A, n_id B, n_id C, n_id D]"
    and m: "m (n_id A) = Some A" "m (n_id B) = Some B" "m (n_id C) = Some C" "m (n_id D) = Some D"
    and ch: "n_children A = [r1, r2]" "r_id r1 = n_id B" "r_id r2 = n_id C"
      "n_children B = [q1]" "r_id q1 = n_id D" "n_children C = [q2]" "r_id q2 = n_id D"
      "n_children D = []"
  shows "map_option (map_sum id fst) (build_node_tree (Suc (Suc (Suc (Suc 0)))) A \<lparr>node_map = m, visited = {}\<rparr>)
         = Some (Inr (Some (A\<lparr>n_children := [set_children r1 [set_children q1 []], set_children r2 []]\<rparr>)))"
proof -
  from ids have ne: "n_id A \<noteq> n_id B" "n_id A \<noteq> n_id C" "n_id A \<noteq> n_id D"
    "n_id B \<noteq> n_id C" "n_id B \<noteq> n_id D" "n_id C \<noteq> n_id D"
    "n_id B \<noteq> n_id A" "n_id C \<noteq> n_id A" "n_id D \<noteq> n_id A"
    "n_id C \<noteq> n_id B" "n_id D \<noteq> n_id B" "n_id D \<noteq> n_id C"
    by auto
  show ?thesis
    by (simp add: build_node_tree.simps expand_children.simps Let_def m ch ne)
qed

text \<open>
  When every edge of the diamond is a single reference, the node \<open>D\<close> is expanded under
  the child of \<open>A\<close> that is listed first, the other child's reference to \<open>D\<close> is
  dropped, and every id occurs once in the tree.
\<close>

lemma diamond_single_references:
  assumes ids: "distinct [n_id A, n_id B, n_id C, n_id D]"
    and nodes: "set nodes = {A, B, C, D}"
    and kids: "n_children A = [rb, rc] \<or> n_children A = [rc, rb]"
      "r_id rb = n_id B" "r_id rc = n_id C"
      "n_children B = [rd]" "r_id rd = n_id D"
      "n_children C = [rd']" "r_id rd' = n_id D"
      "n_children D = []"
  shows "\<exists>tree tb tc. build_result nodes (n_id A) = Some (Inr (Some tree))
           \<and> n_id tree = n_id A
           \<and> (n_children tree = [tb, tc] \<or> n_children tree = [tc, tb])
           \<and> r_id tb = n_id B \<and> r_id tc = n_id C
           \<and> (n_id D \<in> set (ref_ids tb)) \<noteq> (n_id D \<in> set (ref_ids tc))
           \<and> distinct (node_ids tree)
           \<and> set (node_ids tree) = {n_id A, n_id B, n_id C, n_id D}"
proof -
  from ids have ne: "n_id A \<noteq> n_id B" "n_id A \<noteq> n_id C" "n_id A \<noteq> n_id D"
    "n_id B \<noteq> n_id C" "n_id B \<noteq> n_id D" "n_id C \<noteq> n_id D"
    by auto
  have uniq: "\<forall>x\<in>set nodes. \<forall>y\<in>set nodes. n_id x = n_id y \<longrightarrow> x = y"
    using ne nodes by auto
  have m: "make_node_map nodes (n_id A) = Some A" "make_node_map nodes (n_id B) = Some B"
    "make_node_map nodes (n_id C) = Some C" "make_node_map nodes (n_id D) = Some D"
    using make_node_map_member [OF uniq] nodes by simp_all
  from kids(1) show ?thesis
  proof
    assume first: "n_children A = [rb, rc]"
    have "map_option (map_sum id fst)
            (build_node_tree (Suc (Suc (Suc (Suc 0)))) A \<lparr>node_map = make_node_map nodes, visited = {}\<rparr>)
          = Some (Inr (Some (A\<lparr>n_children := [set_children rb [set_children rd []], set_children rc []]\<rparr>)))"
      using ids m first kids(2-) by (rule diamond_eval)
    with m(1) have "build_result nodes (n_id A)
          = Some (Inr (Some (A\<lparr>n_children := [set_children rb [set_children rd []], set_children rc []]\<rparr>)))"
      by (rule build_result_fuel)
    moreover have "distinct (node_ids (A\<lparr>n_children := [set_children rb [set_children rd []], set_children rc []]\<rparr>))"
      using ne kids by (auto simp: node_ids_def)
    moreover have "set (node_ids (A\<lparr>n_children := [set_children rb [set_children rd []], set_children rc []]\<rparr>))
                   = {n_id A, n_id B, n_id C, n_id D}"
      using kids by (auto simp: node_ids_def)
    moreover have "(n_id D \<in> set (ref_ids (set_children rb [set_children rd []])))
                   \<noteq> (n_id D \<in> set (ref_ids (set_children rc [])))"
      using ne kids by auto
    ultimately show ?thesis
      using kids(2,3) by (intro exI[of _ "A\<lparr>n_children := [set_children rb [set_children rd []], set_children rc []]\<rparr>"]
          exI[of _ "set_children rb [set_children rd []]"] exI[of _ "set_children rc []"]) simp
  next
    assume second: "n_children A = [rc, rb]"
    from ids have ids': "distinct [n_id A, n_id C, n_id B, n_id D]" by auto
    have "map_option (map_sum id fst)
            (build_node_tree (Suc (Suc (Suc (Suc 0)))) A \<lparr>node_map = make_node_map nodes, visited = {}\<rparr>)
          = Some (Inr (Some (A\<lparr>n_children := [set_children rc [set_children rd' []], set_children rb []]\<rparr>)))"
      using ids' m(1) m(3) m(2) m(4) second kids(3) kids(2) kids(6) kids(7) kids(4) kids(5) kids(8)
      by (rule diamond_eval)
    with m(1) have "build_result nodes (n_id A)
          = Some (Inr (Some (A\<lparr>n_children := [set_children rc [set_children rd' []], set_children rb []]\<rparr>)))"
      by (rule build_result_fuel)
    moreover have "distinct (node_ids (A\<lparr>n_children := [set_children rc [set_children rd' []], set_children rb []]\<rparr>))"
      using ne kids by (auto simp: node_ids_def)
    moreover have "set (node_ids (A\<lparr>n_children := [set_children rc [set_children rd' []], set_children rb []]\<rparr>))
                   = {n_id A, n_id B, n_id C, n_id D}"
      using kids by (auto simp: node_ids_def)
    moreover have "(n_id D \<in> set (ref_ids (set_children rb [])))
                   \<noteq> (n_id D \<in> set (ref_ids (set_children rc [set_children rd' []])))"
      using ne kids by auto
    ultimately show ?thesis
      using kids(2,3) by (intro exI[of _ "A\<lparr>n_children := [set_children rc [set_children rd' []], set_children rb []]\<rparr>"]
          exI[of _ "set_children rb []"] exI[of _ "set_children rc [set_children rd' []]"]) simp
  qed
qed

text \<open>
  Claim C3 says that on a record set that forms a diamond, with edges from \<open>A\<close> to \<open>B\<close>
  and \<open>C\<close> and from each of \<open>B\<close> and \<open>C\<close> to \<open>D\<close>, the node \<open>D\<close> is under
  exactly one of \<open>B\<close> and \<open>C\<close> and every id occurs at most once in the tree. The code
  on the diamond where \<open>C\<close> has two edges to \<open>D\<close>: \<open>D\<close> is expanded under \<open>B\<close>; at
  \<open>C\<close> the first reference to \<open>D\<close> is removed from the list that the loop runs over,
  the second is skipped and stays. \<open>D\<close> is then under both \<open>B\<close> and \<open>C\<close>, and its
  id occurs twice in the tree.
\<close>

theorem diamond_parallel_edge_kept:
  "build_result
     [ex_node ''A'' [ex_ref ''B'' ''CALLS'', ex_ref ''C'' ''CALLS''],
      ex_node ''B'' [ex_ref ''D'' ''CALLS''],
      ex_node ''C'' [ex_ref ''D'' ''CALLS'', ex_ref ''D'' ''REFERENCES''],
      ex_node ''D'' []] ''A''
   = Some (Inr (Some (ex_node ''A''
        [set_children (ex_ref ''B'' ''CALLS'') [set_children (ex_ref ''D'' ''CALLS'') []],
         set_children (ex_ref ''C'' ''CALLS'') [ex_ref ''D'' ''REFERENCES'']])))
   \<and> ''D'' \<in> set (ref_ids (set_children (ex_ref ''B'' ''CALLS'') [set_children (ex_ref ''D'' ''CALLS'') []]))
   \<and> ''D'' \<in> set (ref_ids (set_children (ex_ref ''C'' ''CALLS'') [ex_ref ''D'' ''REFERENCES'']))
   \<and> node_ids (ex_node ''A''
        [set_children (ex_ref ''B'' ''CALLS'') [set_children (ex_ref ''D'' ''CALLS'') []],
         set_children (ex_ref ''C'' ''CALLS'') [ex_ref ''D'' ''REFERENCES'']])
      = [''A'', ''B'', ''D'', ''C'', ''D'']
   \<and> \<not> distinct [''A'', ''B'', ''D'', ''C'', ''D'']"
  by code_simp

section \<open>What the tree builder changes\<close>

text \<open>
  Claim C9, as stated: the builder returns its result and leaves every input record,
  its children array included, unchanged. It fails on the chain from \<open>A\<close> to \<open>B\<close>: the
  record of \<open>A\<close> holds, after the call, a reference to \<open>B\<close> that has gained a
  \<^verbatim>\<open>children\<close> key.
\<close>

theorem records_mutated_counterexample:
  "make_node_map [ex_node ''A'' [ex_ref ''B'' ''CALLS''], ex_node ''B'' []] ''A''
     = Some (ex_node ''A'' [ex_ref ''B'' ''CALLS''])
   \<and> record_after [ex_node ''A'' [ex_ref ''B'' ''CALLS''], ex_node ''B'' []] ''A'' ''A''
     = Some (ex_node ''A'' [set_children (ex_ref ''B'' ''CALLS'') []])
   \<and> ex_node ''A'' [set_children (ex_ref ''B'' ''CALLS'') []] \<noteq> ex_node ''A'' [ex_ref ''B'' ''CALLS'']"
  by (simp add: record_after_def final_state_def build_tree_def make_node_map_def
      build_node_tree.simps expand_children.simps Let_def ex_node_def ex_ref_def)

text \<open>
  Claim C9, amended: the builder changes records in place, but only their children
  arrays. When it has returned, the store holds a record for the same ids as before,
  every record has the id and the other scalar fields that it had, and a record whose id
  the builder did not visit has its children array unchanged as well.
\<close>

theorem records_frame:
  "\<exists>st'. final_state nodes root_id = Some st'
     \<and> dom (node_map st') = dom (make_node_map nodes)
     \<and> (\<forall>k n'. node_map st' k = Some n' \<longrightarrow>
           (\<exists>n cs. make_node_map nodes k = Some n \<and> n' = n\<lparr>n_children := cs\<rparr>))
     \<and> (\<forall>k. k \<notin> visited st' \<longrightarrow> node_map st' k = make_node_map nodes k)"
proof -
  define st where "st = \<lparr>node_map = make_node_map nodes, visited = {}\<rparr>"
  have "\<exists>r st'. build_tree nodes root_id = Some (Inr (r, st')) \<and> frame {} st st'"
  proof (cases "root_id \<in> n_id ` set nodes")
    case True
    then show ?thesis using build_tree_present [of root_id nodes] unfolding st_def by blast
  next
    case False
    then have "build_tree nodes root_id = Some (Inr (None, st))"
      unfolding st_def by (rule build_tree_absent)
    moreover have "frame {} st st"
      unfolding st_def by (rule frame_refl) (rule wf_store_initial)
    ultimately show ?thesis by blast
  qed
  then obtain r st' where b: "build_tree nodes root_id = Some (Inr (r, st'))"
    and fr: "frame {} st st'"
    by blast
  from b have "final_state nodes root_id = Some st'" by (simp add: final_state_def)
  moreover from fr have "dom (node_map st') = dom (make_node_map nodes)"
    by (simp add: frame_def st_def)
  moreover from fr have "\<forall>k n'. node_map st' k = Some n' \<longrightarrow>
           (\<exists>n cs. make_node_map nodes k = Some n \<and> n' = n\<lparr>n_children := cs\<rparr>)"
    by (simp add: frame_def st_def)
  moreover from fr have "\<forall>k. k \<notin> visited st' \<longrightarrow> node_map st' k = make_node_map nodes k"
    by (simp add: frame_def st_def)
  ultimately show ?thesis by blast
qed

lemma visited_after_example:
  "visited_after [ex_node ''A'' [ex_ref ''B'' ''CALLS''], ex_node ''B'' [], ex_node ''C'' []] ''A''
     = {''A'', ''B''}"
  by (simp add: visited_after_def final_state_def build_tree_def make_node_map_def
      build_node_tree.simps expand_children.simps Let_def ex_node_def ex_ref_def insert_commute)

theorem records_frame_witness:
  "''C'' \<notin> visited_after [ex_node ''A'' [ex_ref ''B'' ''CALLS''], ex_node ''B'' [], ex_node ''C'' []] ''A''
   \<and> record_after [ex_node ''A'' [ex_ref ''B'' ''CALLS''], ex_node ''B'' [], ex_node ''C'' []] ''A'' ''C''
       = make_node_map [ex_node ''A'' [ex_ref ''B'' ''CALLS''], ex_node ''B'' [], ex_node ''C'' []] ''C''
   \<and> record_after [ex_node ''A'' [ex_ref ''B'' ''CALLS''], ex_node ''B'' [], ex_node ''C'' []] ''A'' ''C''
       = Some (ex_node ''C'' [])"
proof -
  let ?N = "[ex_node ''A'' [ex_ref ''B'' ''CALLS''], ex_node ''B'' [], ex_node ''C'' []]"
  from records_frame [of ?N "''A''"] obtain st' where
    fs: "final_state ?N ''A'' = Some st'"
    and un: "\<forall>k. k \<notin> visited st' \<longrightarrow> node_map st' k = make_node_map ?N k"
    by blast
  from fs have v: "visited_after ?N ''A'' = visited st'" by (simp add: visited_after_def)
  with visited_after_example have h: "''C'' \<notin> visited st'" by simp
  with un have "node_map st' ''C'' = make_node_map ?N ''C''" by blast
  with fs have "record_after ?N ''A'' ''C'' = make_node_map ?N ''C''"
    by (simp add: record_after_def)
  moreover have "make_node_map ?N ''C'' = Some (ex_node ''C'' [])"
    by (simp add: make_node_map_def ex_node_def)
  ultimately show ?thesis using h v by simp
qed

section \<open>The response\<close>

lemma build_result_state:
  assumes "build_result nodes root_id = Some (Inr v)"
  shows "\<exists>st'. build_tree nodes root_id = Some (Inr (v, st'))"
proof -
  obtain r st' where b: "build_tree nodes root_id = Some (Inr (r, st'))"
    using build_tree_returns by blast
  with assms have "r = v" by (simp add: build_result_def)
  with b show ?thesis by blast
qed

lemma process_ref_set_children:
  "process_ref (set_children r cs) =
     TreeNode (r_id r) (r_name r) (r_type r) (get_relative_file_path (r_file_path r))
       (r_start_line r) (r_end_line r)
       (map (\<lambda>child. set_relationship (process_ref child) (relationship child)) cs) None"
  by (cases r) simp

lemma relationship_set_children [simp]: "relationship (set_children r cs) = relationship r"
  by (cases r) simp

lemma chain_eval:
  assumes ids: "distinct [n_id R, n_id C, n_id G]"
    and m: "m (n_id R) = Some R" "m (n_id C) = Some C" "m (n_id G) = Some G"
    and ch: "n_children R = [rc]" "r_id rc = n_id C" "n_children C = [rg]" "r_id rg = n_id G"
      "n_children G = []"
  shows "map_option (map_sum id fst) (build_node_tree (Suc (Suc (Suc 0))) R \<lparr>node_map = m, visited = {}\<rparr>)
         = Some (Inr (Some (R\<lparr>n_children := [set_children rc [set_children rg []]]\<rparr>)))"
proof -
  from ids have ne: "n_id R \<noteq> n_id C" "n_id R \<noteq> n_id G" "n_id C \<noteq> n_id G"
    "n_id C \<noteq> n_id R" "n_id G \<noteq> n_id R" "n_id G \<noteq> n_id C"
    by auto
  show ?thesis
    by (simp add: build_node_tree.simps expand_children.simps Let_def m ch ne)
qed

text \<open>
  Claim C5. The response assembler names the graph \<open>''Code Graph for ''\<close> followed by the
  repository name, and its root has no relationship label. For a chain of three records,
  root to child to grandchild, and the project \<open>demo\<close> on branch \<open>main\<close>, the operation
  returns the graph named \<open>''Code Graph for demo''\<close> whose root has one child, labelled
  with the type of the fetched edge, whose one child has the id of the grandchild.
\<close>

theorem chain_response:
  assumes "distinct [n_id R, n_id C, n_id G]" and "set nodes = {R, C, G}"
    and "n_children R = [rc]" and "r_id rc = n_id C"
    and "n_children C = [rg]" and "r_id rg = n_id G" and "n_children G = []"
    and "find_project e project_id = Inr (Some \<lparr>repo_name = ''demo'', branch_name = ''main''\<rparr>)"
    and "run_query e (n_id R) project_id = Inr nodes"
  shows "(\<forall>graph_data project. \<exists>g. process_graph_data graph_data project = Graph g
            \<and> g_name g = ''Code Graph for '' @ repo_name project
            \<and> t_relationship (g_root_node g) = None)
       \<and> (\<exists>g child grandchild.
            run e project_id (n_id R) = Some (Graph g, [(n_id R, project_id)])
            \<and> g_name g = ''Code Graph for demo''
            \<and> t_id (g_root_node g) = n_id R
            \<and> t_relationship (g_root_node g) = None
            \<and> t_children (g_root_node g) = [child]
            \<and> t_relationship child = Some (relationship rc)
            \<and> t_children child = [grandchild]
            \<and> t_id grandchild = n_id G)"
proof
  show "\<forall>graph_data project. \<exists>g. process_graph_data graph_data project = Graph g
            \<and> g_name g = ''Code Graph for '' @ repo_name project
            \<and> t_relationship (g_root_node g) = None"
    by (simp add: process_graph_data_def process_node_def)
next
  from assms(1) have ne: "n_id R \<noteq> n_id C" "n_id R \<noteq> n_id G" "n_id C \<noteq> n_id G" by auto
  have uniq: "\<forall>x\<in>set nodes. \<forall>y\<in>set nodes. n_id x = n_id y \<longrightarrow> x = y"
    using ne assms(2) by auto
  have m: "make_node_map nodes (n_id R) = Some R" "make_node_map nodes (n_id C) = Some C"
    "make_node_map nodes (n_id G) = Some G"
    using make_node_map_member [OF uniq] assms(2) by simp_all
  define tree where "tree = R\<lparr>n_children := [set_children rc [set_children rg []]]\<rparr>"
  have "map_option (map_sum id fst)
          (build_node_tree (Suc (Suc (Suc 0))) R \<lparr>node_map = make_node_map nodes, visited = {}\<rparr>)
        = Some (Inr (Some tree))"
    unfolding tree_def using assms(1) m assms(3-7) by (rule chain_eval)
  with m(1) have "build_result nodes (n_id R) = Some (Inr (Some tree))"
    by (rule build_result_fuel)
  then obtain st' where b: "build_tree nodes (n_id R) = Some (Inr (Some tree, st'))"
    using build_result_state by blast
  from assms(2) have nonempty: "nodes \<noteq> []" by auto
  define g where "g = \<lparr>g_name = ''Code Graph for demo'', g_repo_name = ''demo'',
                       g_branch_name = ''main'', g_root_node = process_node tree\<rparr>"
  define grandchild where "grandchild = set_relationship (process_ref (set_children rg [])) (relationship rg)"
  define child where "child = set_relationship (process_ref (set_children rc [set_children rg []])) (relationship rc)"
  have run: "run e project_id (n_id R) = Some (Graph g, [(n_id R, project_id)])"
    using assms(8,9) b nonempty
    by (simp add: run_def get_graph_data_def process_graph_data_def g_def)
  have root: "t_id (g_root_node g) = n_id R" "t_relationship (g_root_node g) = None"
    "t_children (g_root_node g) = [child]"
    by (simp_all add: g_def process_node_def tree_def child_def)
  have c: "t_relationship child = Some (relationship rc)" "t_children child = [grandchild]"
    by (simp_all add: child_def grandchild_def process_ref_set_children)
  have gc: "t_id grandchild = n_id G"
    using assms(6) by (simp add: grandchild_def process_ref_set_children)
  have "g_name g = ''Code Graph for demo''" by (simp add: g_def)
  with run root c gc
  show "\<exists>g child grandchild.
            run e project_id (n_id R) = Some (Graph g, [(n_id R, project_id)])
            \<and> g_name g = ''Code Graph for demo''
            \<and> t_id (g_root_node g) = n_id R
            \<and> t_relationship (g_root_node g) = None
            \<and> t_children (g_root_node g) = [child]
            \<and> t_relationship child = Some (relationship rc)
            \<and> t_children child = [grandchild]
            \<and> t_id grandchild = n_id G"
    by blast
qed

theorem chain_response_witness:
  "distinct [n_id (ex_node ''root'' [ex_ref ''child'' ''CONTAINS'']),
             n_id (ex_node ''child'' [ex_ref ''grandchild'' ''CALLS'']),
             n_id (ex_node ''grandchild'' [])]
   \<and> (\<exists>g child grandchild.
         run (ex_env (Inr (Some \<lparr>repo_name = ''demo'', branch_name = ''main''\<rparr>))
                     (Inr [ex_node ''root'' [ex_ref ''child'' ''CONTAINS''],
                           ex_node ''child'' [ex_ref ''grandchild'' ''CALLS''],
                           ex_node ''grandchild'' []]))
             ''p1'' ''root''
           = Some (Graph g, [(''root'', ''p1'')])
         \<and> g_name g = ''Code Graph for demo''
         \<and> t_relationship (g_root_node g) = None
         \<and> t_children (g_root_node g) = [child]
         \<and> t_relationship child = Some ''CONTAINS''
         \<and> t_children child = [grandchild]
         \<and> t_id grandchild = ''grandchild'')"
proof -
  let ?R = "ex_node ''root'' [ex_ref ''child'' ''CONTAINS'']"
  let ?C = "ex_node ''child'' [ex_ref ''grandchild'' ''CALLS'']"
  let ?G = "ex_node ''grandchild'' []"
  let ?e = "ex_env (Inr (Some \<lparr>repo_name = ''demo'', branch_name = ''main''\<rparr>)) (Inr [?R, ?C, ?G])"
  have h1: "distinct [n_id ?R, n_id ?C, n_id ?G]" by (simp add: ex_node_def)
  have h2: "set [?R, ?C, ?G] = {?R, ?C, ?G}" by simp
  have h3: "n_children ?R = [ex_ref ''child'' ''CONTAINS'']"
    "r_id (ex_ref ''child'' ''CONTAINS'') = n_id ?C"
    "n_children ?C = [ex_ref ''grandchild'' ''CALLS'']"
    "r_id (ex_ref ''grandchild'' ''CALLS'') = n_id ?G"
    "n_children ?G = []"
    by (simp_all add: ex_node_def ex_ref_def)
  have h4: "find_project ?e ''p1'' = Inr (Some \<lparr>repo_name = ''demo'', branch_name = ''main''\<rparr>)"
    by (simp add: ex_env_def)
  have h5: "run_query ?e (n_id ?R) ''p1'' = Inr [?R, ?C, ?G]"
    by (simp add: ex_env_def)
  have ids: "n_id ?R = ''root''" "n_id ?G = ''grandchild''"
    "relationship (ex_ref ''child'' ''CONTAINS'') = ''CONTAINS''"
    by (simp_all add: ex_node_def ex_ref_def)
  from chain_response [OF h1 h2 h3 h4 h5] obtain g child grandchild where
    "run ?e ''p1'' (n_id ?R) = Some (Graph g, [(n_id ?R, ''p1'')])"
    "g_name g = ''Code Graph for demo''"
    "t_relationship (g_root_node g) = None"
    "t_children (g_root_node g) = [child]"
    "t_relationship child = Some (relationship (ex_ref ''child'' ''CONTAINS''))"
    "t_children child = [grandchild]"
    "t_id grandchild = n_id ?G"
    by blast
  then have "run ?e ''p1'' ''root'' = Some (Graph g, [(''root'', ''p1'')])
         \<and> g_name g = ''Code Graph for demo''
         \<and> t_relationship (g_root_node g) = None
         \<and> t_children (g_root_node g) = [child]
         \<and> t_relationship child = Some ''CONTAINS''
         \<and> t_children child = [grandchild]
         \<and> t_id grandchild = ''grandchild''"
    unfolding ids by simp
  then have "\<exists>g child grandchild. run ?e ''p1'' ''root'' = Some (Graph g, [(''root'', ''p1'')])
         \<and> g_name g = ''Code Graph for demo''
         \<and> t_relationship (g_root_node g) = None
         \<and> t_children (g_root_node g) = [child]
         \<and> t_relationship child = Some ''CONTAINS''
         \<and> t_children child = [grandchild]
         \<and> t_id grandchild = ''grandchild''"
    by (intro exI)
  with h1 show ?thesis by (rule conjI)
qed

section \<open>Errors of the operation\<close>




section \<open>File paths of the response\<close>

lemma split_no_sep: "s \<in> set (split sep p) \<Longrightarrow> sep \<notin> set s"
proof (induction p arbitrary: s)
  case Nil
  then show ?case by simp
next
  case (Cons c cs)
  show ?case
  proof (cases "c = sep")
    case True
    with Cons show ?thesis by auto
  next
    case False
    show ?thesis
    proof (cases "split sep cs")
      case Nil
      with False Cons.prems show ?thesis by simp
    next
      case (Cons q qs)
      with False Cons.prems have "s = c # q \<or> s \<in> set qs" by simp
      moreover from Cons have "q \<in> set (split sep cs)" "set qs \<subseteq> set (split sep cs)" by auto
      ultimately show ?thesis using False Cons.IH by auto
    qed
  qed
qed

lemma join_Cons: "join sep (p # ps) = p @ (if ps = [] then [] else sep @ join sep ps)"
  by (cases ps) simp_all

lemma join_not_absolute:
  assumes "s \<noteq> []" and "CHR ''/'' \<notin> set s"
  shows "\<not> is_absolute (join ''/'' (s # rest))"
proof -
  from assms obtain c cs where "s = c # cs" "c \<noteq> CHR ''/''"
    by (cases s) auto
  then show ?thesis by (simp add: join_Cons is_absolute_def)
qed

lemma tree_file_paths_set_relationship [simp]:
  "tree_file_paths (set_relationship t v) = tree_file_paths t"
  by (cases t) simp

lemma tree_file_paths_process_ref:
  "tree_file_paths (process_ref r) = map get_relative_file_path (ref_file_paths r)"
proof (induction r rule: process_ref.induct)
  case (1 i n t f s e rel ch)
  show ?case
  proof (cases ch)
    case None
    then show ?thesis by simp
  next
    case (Some cs)
    with "1.IH" have "\<forall>child\<in>set cs. tree_file_paths (process_ref child)
                        = map get_relative_file_path (ref_file_paths child)"
      by simp
    then have "map (\<lambda>child. tree_file_paths (process_ref child)) cs
             = map (\<lambda>child. map get_relative_file_path (ref_file_paths child)) cs"
      by simp
    then have "concat (map (\<lambda>child. tree_file_paths (process_ref child)) cs)
             = map get_relative_file_path (concat (map ref_file_paths cs))"
      by (simp only: map_concat map_map comp_def)
    with Some show ?thesis by (simp add: comp_def)
  qed
qed

lemma tree_file_paths_process_node:
  "tree_file_paths (process_node node) = map get_relative_file_path (node_file_paths node)"
  by (simp add: process_node_def node_file_paths_def comp_def map_concat tree_file_paths_process_ref)

text \<open>
  Claim C6, as stated: in every successful response, the file path of every node is
  \<open>''Unknown''\<close> or relative to the repository, and never absolute. It fails for a path
  with no \<open>''projects''\<close> segment, which the normalizer returns as it came:
  \<open>''/var/data/other/file.py''\<close> is in the response unchanged.
\<close>

theorem absolute_path_counterexample:
  "response_file_paths
     (process_graph_data
        \<lparr>n_id = ''A'', n_name = ''file.py'', n_type = ''FILE'',
         n_file_path = ''/var/data/other/file.py'',
         n_start_line = None, n_end_line = None, n_children = []\<rparr>
        \<lparr>repo_name = ''demo'', branch_name = ''main''\<rparr>)
     = [''/var/data/other/file.py'']
   \<and> is_absolute ''/var/data/other/file.py''
   \<and> ''/var/data/other/file.py'' \<noteq> ''Unknown''"
  by (simp add: response_file_paths_def process_graph_data_def process_node_def
      get_relative_file_path_def is_absolute_def)

text \<open>
  Claim C6, amended: in every successful response, the file path of every node is the
  normalizer's result for the file path of that node in the built tree. The normalizer
  returns \<open>''Unknown''\<close> for the empty path and for \<open>''Unknown''\<close>; it returns a
  non-empty path with no \<open>''projects''\<close> segment unchanged, absolute if the path is; and
  for any other path it returns the segments after the one that follows the first
  \<open>''projects''\<close> segment, joined by the separator, which is not an absolute path when
  the first of those segments is not empty.
\<close>

theorem file_paths_normalized:
  "response_file_paths (process_graph_data graph_data project)
     = map get_relative_file_path (node_file_paths graph_data)
   \<and> (\<forall>p. p = [] \<or> p = ''Unknown'' \<longrightarrow> get_relative_file_path p = ''Unknown'')
   \<and> (\<forall>p. p \<noteq> [] \<longrightarrow> ''projects'' \<notin> set (split CHR ''/'' p) \<longrightarrow> get_relative_file_path p = p)
   \<and> (\<forall>p i. p \<noteq> [] \<longrightarrow> p \<noteq> ''Unknown'' \<longrightarrow> index (split CHR ''/'' p) ''projects'' = Some i \<longrightarrow>
          get_relative_file_path p = join ''/'' (drop (i + 2) (split CHR ''/'' p))
          \<and> (i + 2 < length (split CHR ''/'' p) \<longrightarrow> split CHR ''/'' p ! (i + 2) \<noteq> []
               \<longrightarrow> \<not> is_absolute (get_relative_file_path p)))"
proof (intro conjI allI impI)
  show "response_file_paths (process_graph_data graph_data project)
     = map get_relative_file_path (node_file_paths graph_data)"
    by (simp add: response_file_paths_def process_graph_data_def tree_file_paths_process_node)
next
  fix p :: string
  assume "p = [] \<or> p = ''Unknown''"
  then show "get_relative_file_path p = ''Unknown''"
    by (auto simp: get_relative_file_path_def)
next
  fix p
  assume "p \<noteq> []" and "''projects'' \<notin> set (split CHR ''/'' p)"
  then have "index (split CHR ''/'' p) ''projects'' = None"
    by (simp add: index_None_iff)
  with \<open>p \<noteq> []\<close> show "get_relative_file_path p = p"
    by (simp add: get_relative_file_path_def)
next
  fix p i
  assume "p \<noteq> []" "p \<noteq> ''Unknown''" "index (split CHR ''/'' p) ''projects'' = Some i"
  then show "get_relative_file_path p = join ''/'' (drop (i + 2) (split CHR ''/'' p))"
    by (simp add: get_relative_file_path_def)
next
  fix p i
  let ?parts = "split CHR ''/'' p"
  assume a: "p \<noteq> []" "p \<noteq> ''Unknown''" "index ?parts ''projects'' = Some i"
    and len: "i + 2 < length ?parts" and ne: "?parts ! (i + 2) \<noteq> []"
  from a have eq: "get_relative_file_path p = join ''/'' (drop (i + 2) ?parts)"
    by (simp add: get_relative_file_path_def)
  from len have d: "drop (i + 2) ?parts = ?parts ! (i + 2) # drop (Suc (i + 2)) ?parts"
    by (rule Cons_nth_drop_Suc[symmetric])
  from len have "?parts ! (i + 2) \<in> set ?parts" by simp
  then have "CHR ''/'' \<notin> set (?parts ! (i + 2))" by (rule split_no_sep)
  with ne have "\<not> is_absolute (join ''/'' (?parts ! (i + 2) # drop (Suc (i + 2)) ?parts))"
    by (rule join_not_absolute)
  with eq d show "\<not> is_absolute (get_relative_file_path p)" by simp
qed

theorem file_paths_normalized_witness:
  "get_relative_file_path [] = ''Unknown''
   \<and> ''/var/data/other/file.py'' \<noteq> []
   \<and> ''projects'' \<notin> set (split CHR ''/'' ''/var/data/other/file.py'')
   \<and> get_relative_file_path ''/var/data/other/file.py'' = ''/var/data/other/file.py''
   \<and> ''/home/user/projects/abc123/src/main.py'' \<noteq> []
   \<and> ''/home/user/projects/abc123/src/main.py'' \<noteq> ''Unknown''
   \<and> index (split CHR ''/'' ''/home/user/projects/abc123/src/main.py'') ''projects'' = Some 3
   \<and> 3 + 2 < length (split CHR ''/'' ''/home/user/projects/abc123/src/main.py'')
   \<and> split CHR ''/'' ''/home/user/projects/abc123/src/main.py'' ! (3 + 2) \<noteq> []
   \<and> get_relative_file_path ''/home/user/projects/abc123/src/main.py''
       = join ''/'' (drop (3 + 2) (split CHR ''/'' ''/home/user/projects/abc123/src/main.py''))
   \<and> \<not> is_absolute (get_relative_file_path ''/home/user/projects/abc123/src/main.py'')"
proof -
  let ?q = "''/var/data/other/file.py''"
  let ?p = "''/home/user/projects/abc123/src/main.py''"
  note inst = file_paths_normalized [of "ex_node ''A'' []" "\<lparr>repo_name = ''demo'', branch_name = ''main''\<rparr>"]
  have g1: "[] = [] \<or> [] = ''Unknown''" by simp
  have g2: "?q \<noteq> []" by simp
  have g3: "''projects'' \<notin> set (split CHR ''/'' ?q)" by simp
  have h1: "?p \<noteq> []" by simp
  have h2: "?p \<noteq> ''Unknown''" by simp
  have h3: "index (split CHR ''/'' ?p) ''projects'' = Some 3" by simp
  have h4: "3 + 2 < length (split CHR ''/'' ?p)" by simp
  have h5: "split CHR ''/'' ?p ! (3 + 2) \<noteq> []" by simp
  from inst g1 have r1: "get_relative_file_path [] = ''Unknown''" by blast
  from inst g2 g3 have r2: "get_relative_file_path ?q = ?q" by blast
  from inst h1 h2 h3 have r3: "get_relative_file_path ?p = join ''/'' (drop (3 + 2) (split CHR ''/'' ?p))
          \<and> (3 + 2 < length (split CHR ''/'' ?p) \<longrightarrow> split CHR ''/'' ?p ! (3 + 2) \<noteq> []
               \<longrightarrow> \<not> is_absolute (get_relative_file_path ?p))"
    by blast
  with h4 h5 have r4: "\<not> is_absolute (get_relative_file_path ?p)" by blast
  from r1 g2 g3 r2 h1 h2 h3 h4 h5 r3 r4 show ?thesis by blast
qed

end
